theory Spec2Isabelle
  imports Complex_Main
begin

section \<open>plotlib.plot_mod: the band computed by plot_band\<close>

text \<open>
  The only part of \<^verbatim>\<open>plot_mod.py\<close> with decision logic is \<^verbatim>\<open>plot_band\<close>
  (lines 275-313). It fills two numpy arrays with the sentinels
  \<^verbatim>\<open>float("inf")\<close> and \<^verbatim>\<open>-float("inf")\<close>, scans every pair of samples,
  and hands the arrays to \<^verbatim>\<open>ax.fill_between\<close>.

  Sample values are modelled as reals, as the data model of the specification has them;
  a cell of one of the two float arrays is a real or one of the two infinities.
  NaN and rounding of the subtraction are outside this model.
\<close>

subsection \<open>Cells of a float array\<close>

datatype xreal = NegInf | Fin real | PosInf

instantiation xreal :: linorder
begin

definition less_eq_xreal :: "xreal \<Rightarrow> xreal \<Rightarrow> bool" where
  "less_eq_xreal a b =
     (case a of
        NegInf \<Rightarrow> True
      | Fin u \<Rightarrow> (case b of NegInf \<Rightarrow> False | Fin v \<Rightarrow> u \<le> v | PosInf \<Rightarrow> True)
      | PosInf \<Rightarrow> (case b of PosInf \<Rightarrow> True | _ \<Rightarrow> False))"

definition less_xreal :: "xreal \<Rightarrow> xreal \<Rightarrow> bool" where
  "less_xreal a b = (a \<le> b \<and> \<not> b \<le> a)"

instance
proof
  fix a b c :: xreal
  show "(a < b) = (a \<le> b \<and> \<not> b \<le> a)"
    by (simp add: less_xreal_def)
  show "a \<le> a"
    by (cases a) (simp_all add: less_eq_xreal_def)
  show "a \<le> b \<Longrightarrow> b \<le> c \<Longrightarrow> a \<le> c"
    by (cases a; cases b; cases c) (simp_all add: less_eq_xreal_def)
  show "a \<le> b \<Longrightarrow> b \<le> a \<Longrightarrow> a = b"
    by (cases a; cases b) (simp_all add: less_eq_xreal_def)
  show "a \<le> b \<or> b \<le> a"
    by (cases a; cases b) (auto simp add: less_eq_xreal_def)
qed

end

subsection \<open>The two loops of plot_band\<close>

datatype error = IndexError

type_synonym arrays = "xreal list \<times> xreal list"

text \<open>
  Reading \<^verbatim>\<open>a[index]\<close> of a numpy array; \<^verbatim>\<open>index\<close> comes from
  \<^verbatim>\<open>enumerate\<close>, so it is never negative, and the read raises IndexError exactly
  when it is not below the length.
\<close>

definition getitem :: "xreal list \<Rightarrow> nat \<Rightarrow> error + xreal" where
  "getitem a index = (if index < length a then Inr (a ! index) else Inl IndexError)"

text \<open>
  The body of the inner loop (lines 300-304), on the pair \<open>(lower_y, upper_y)\<close>:
  \<^verbatim>\<open>
  if abs(x - x_prime) < width:
      if y_prime < lower_y[index]:
          lower_y[index] = y_prime
      elif y_prime > upper_y[index]:
          upper_y[index] = y_prime
  \<close>
\<close>

fun band_step :: "real \<Rightarrow> real \<Rightarrow> nat \<Rightarrow> arrays \<Rightarrow> real \<times> real \<Rightarrow> error + arrays" where
  "band_step width x index (lower_y, upper_y) (x_prime, y_prime) =
     (if \<bar>x - x_prime\<bar> < width then
        (case getitem lower_y index of
           Inl e \<Rightarrow> Inl e
         | Inr l \<Rightarrow>
             if Fin y_prime < l then Inr (lower_y[index := Fin y_prime], upper_y)
             else
               (case getitem upper_y index of
                  Inl e \<Rightarrow> Inl e
                | Inr u \<Rightarrow>
                    if Fin y_prime > u then Inr (lower_y, upper_y[index := Fin y_prime])
                    else Inr (lower_y, upper_y)))
      else Inr (lower_y, upper_y))"

text \<open>\<^verbatim>\<open>for x_prime, y_prime in zip(x_data, y_data)\<close> (line 299).\<close>

fun inner_loop :: "real \<Rightarrow> real \<Rightarrow> nat \<Rightarrow> (real \<times> real) list \<Rightarrow> arrays \<Rightarrow> error + arrays" where
  "inner_loop width x index [] st = Inr st"
| "inner_loop width x index (p # ps) st =
     (case band_step width x index st p of
        Inl e \<Rightarrow> Inl e
      | Inr st' \<Rightarrow> inner_loop width x index ps st')"

text \<open>\<^verbatim>\<open>for index, x in enumerate(x_data)\<close> (line 298).\<close>

fun outer_loop :: "real \<Rightarrow> (real \<times> real) list \<Rightarrow> (nat \<times> real) list \<Rightarrow> arrays \<Rightarrow> error + arrays" where
  "outer_loop width ps [] st = Inr st"
| "outer_loop width ps ((index, x) # ixs) st =
     (case inner_loop width x index ps st of
        Inl e \<Rightarrow> Inl e
      | Inr st' \<Rightarrow> outer_loop width ps ixs st')"

text \<open>
  Lines 296-304 of \<^verbatim>\<open>plot_band\<close>: the two arrays are created with the length of
  \<^verbatim>\<open>y_data\<close>, the outer loop runs over \<^verbatim>\<open>x_data\<close>, the inner one over the zipped
  pairs. The result is \<open>(lower_y, upper_y)\<close>.
\<close>

definition band_bounds :: "real list \<Rightarrow> real list \<Rightarrow> real \<Rightarrow> error + arrays" where
  "band_bounds x_data y_data width =
     outer_loop width (zip x_data y_data) (enumerate 0 x_data)
       (replicate (length y_data) PosInf, replicate (length y_data) NegInf)"

subsection \<open>The draw requests of plot_band\<close>




subsection \<open>One cell of the arrays, seen alone\<close>

text \<open>
  Auxiliary functions for the proofs. For a fixed \<open>index\<close> the inner loop touches
  the cells \<open>lower_y[index]\<close> and \<open>upper_y[index]\<close> only: \<open>window\<close> lists, in scan
  order, the \<open>y_prime\<close> of the pairs that pass the test of line 300, \<open>cell_step\<close> is
  the \<^verbatim>\<open>if\<close>/\<^verbatim>\<open>elif\<close> of lines 301-304 on the two cells, and \<open>cell\<close> runs it over
  a window from the two sentinels.
\<close>

definition window :: "real \<Rightarrow> real \<Rightarrow> (real \<times> real) list \<Rightarrow> real list" where
  "window width x ps = map snd (filter (\<lambda>p. \<bar>x - fst p\<bar> < width) ps)"

fun cell_step :: "real \<Rightarrow> xreal \<times> xreal \<Rightarrow> xreal \<times> xreal" where
  "cell_step y_prime (l, u) =
     (if Fin y_prime < l then (Fin y_prime, u)
      else if Fin y_prime > u then (l, Fin y_prime)
      else (l, u))"

fun scan_cell :: "real list \<Rightarrow> xreal \<times> xreal \<Rightarrow> xreal \<times> xreal" where
  "scan_cell [] c = c"
| "scan_cell (y_prime # ys) c = scan_cell ys (cell_step y_prime c)"

definition cell :: "real \<Rightarrow> (real \<times> real) list \<Rightarrow> real \<Rightarrow> xreal \<times> xreal" where
  "cell width ps x = scan_cell (window width x ps) (PosInf, NegInf)"

section \<open>Order on array cells\<close>

lemma xreal_le_simps [simp]:
  "NegInf \<le> a" "a \<le> PosInf"
  "Fin u \<le> Fin v \<longleftrightarrow> u \<le> v"
  "Fin u \<le> NegInf \<longleftrightarrow> False"
  "PosInf \<le> Fin v \<longleftrightarrow> False"
  "PosInf \<le> NegInf \<longleftrightarrow> False"
  by (cases a; simp add: less_eq_xreal_def)+

lemma xreal_less_simps [simp]:
  "Fin u < Fin v \<longleftrightarrow> u < v"
  "Fin u < PosInf" "NegInf < Fin v" "NegInf < PosInf"
  "a < NegInf \<longleftrightarrow> False" "PosInf < a \<longleftrightarrow> False"
  by (cases a; auto simp add: less_xreal_def)+

section \<open>The loops in terms of single cells\<close>

lemma window_Nil [simp]: "window width x [] = []"
  by (simp add: window_def)

lemma window_Cons [simp]:
  "window width x ((x', y') # ps) =
     (if \<bar>x - x'\<bar> < width then y' # window width x ps else window width x ps)"
  by (simp add: window_def)

lemma inner_loop_in_range:
  "index < length lo \<Longrightarrow> index < length up \<Longrightarrow>
   inner_loop width x index ps (lo, up) =
     Inr (lo[index := fst (scan_cell (window width x ps) (lo ! index, up ! index))],
          up[index := snd (scan_cell (window width x ps) (lo ! index, up ! index))])"
proof (induction ps arbitrary: lo up)
  case Nil
  then show ?case by simp
next
  case (Cons p ps)
  obtain x' y' where p: "p = (x', y')" by (cases p)
  show ?case
    using Cons.prems by (simp add: p getitem_def Cons.IH)
qed

lemma inner_loop_out_of_range:
  "length lo \<le> index \<Longrightarrow>
   inner_loop width x index ps (lo, up) =
     (if window width x ps = [] then Inr (lo, up) else Inl IndexError)"
proof (induction ps)
  case Nil
  then show ?case by simp
next
  case (Cons p ps)
  obtain x' y' where p: "p = (x', y')" by (cases p)
  show ?case
    using Cons by (simp add: p getitem_def)
qed

lemma outer_loop_in_range:
  "length lpre = k \<Longrightarrow> length upre = k \<Longrightarrow> length xs \<le> n \<Longrightarrow>
   outer_loop width ps (enumerate k xs) (lpre @ replicate n PosInf, upre @ replicate n NegInf) =
     Inr (lpre @ map (\<lambda>x. fst (cell width ps x)) xs @ replicate (n - length xs) PosInf,
          upre @ map (\<lambda>x. snd (cell width ps x)) xs @ replicate (n - length xs) NegInf)"
proof (induction xs arbitrary: k lpre upre n)
  case Nil
  then show ?case by simp
next
  case (Cons x xs)
  then obtain m where n: "n = Suc m" by (cases n) auto
  let ?c = "cell width ps x"
  have step: "inner_loop width x k ps (lpre @ replicate n PosInf, upre @ replicate n NegInf) =
      Inr ((lpre @ [fst ?c]) @ replicate m PosInf, (upre @ [snd ?c]) @ replicate m NegInf)"
    using Cons.prems
    by (simp add: inner_loop_in_range n nth_append list_update_append cell_def)
  have "outer_loop width ps (enumerate (Suc k) xs)
          ((lpre @ [fst ?c]) @ replicate m PosInf, (upre @ [snd ?c]) @ replicate m NegInf) =
        Inr ((lpre @ [fst ?c]) @ map (\<lambda>x. fst (cell width ps x)) xs
               @ replicate (m - length xs) PosInf,
             (upre @ [snd ?c]) @ map (\<lambda>x. snd (cell width ps x)) xs
               @ replicate (m - length xs) NegInf)"
    using Cons.prems n by (intro Cons.IH) auto
  with step show ?case
    by (simp add: n)
qed

lemma band_bounds_le:
  assumes "length x \<le> length y"
  shows "band_bounds x y width =
     Inr (map (\<lambda>xi. fst (cell width (zip x y) xi)) x @ replicate (length y - length x) PosInf,
          map (\<lambda>xi. snd (cell width (zip x y) xi)) x @ replicate (length y - length x) NegInf)"
  using outer_loop_in_range [of "[]" 0 "[]" x "length y" width "zip x y"] assms
  by (simp add: band_bounds_def)

lemma fst_cell_step: "fst (cell_step y (l, u)) = min l (Fin y)"
  by (auto simp: min_def)

lemma Fin_min: "Fin (min a b) = min (Fin a) (Fin b)"
  by (simp add: min_def)

lemma fst_scan_cell:
  "fst (scan_cell ys (l, u)) = (if ys = [] then l else min l (Fin (Min (set ys))))"
proof (induction ys arbitrary: l u)
  case Nil
  then show ?case by simp
next
  case (Cons y ys)
  obtain l' u' where c: "cell_step y (l, u) = (l', u')" by (cases "cell_step y (l, u)")
  then have l': "l' = min l (Fin y)" using fst_cell_step [of y l u] by simp
  show ?case
    by (simp add: c Cons.IH l' Fin_min min.assoc del: cell_step.simps)
qed

lemma set_window:
  "set (window width xi (zip x y)) =
     {y ! j | j. j < length x \<and> j < length y \<and> \<bar>xi - x ! j\<bar> < width}"
  by (fastforce simp: window_def set_zip image_iff)


lemma cell_step_widens: "fst (cell_step y c) \<le> fst c \<and> snd c \<le> snd (cell_step y c)"
  by (cases c) auto

lemma cell_step_mono:
  assumes "l2 \<le> l1" and "u1 \<le> u2"
  shows "fst (cell_step y (l2, u2)) \<le> fst (cell_step y (l1, u1)) \<and>
         snd (cell_step y (l1, u1)) \<le> snd (cell_step y (l2, u2))"
  using assms by auto

lemma scan_window_mono:
  assumes "w1 \<le> w2"
  shows "fst c2 \<le> fst c1 \<Longrightarrow> snd c1 \<le> snd c2 \<Longrightarrow>
         fst (scan_cell (window w2 x ps) c2) \<le> fst (scan_cell (window w1 x ps) c1) \<and>
         snd (scan_cell (window w1 x ps) c1) \<le> snd (scan_cell (window w2 x ps) c2)"
proof (induction ps arbitrary: c1 c2)
  case Nil
  then show ?case by simp
next
  case (Cons p ps)
  obtain x' y' where p: "p = (x', y')" by (cases p)
  consider (both) "\<bar>x - x'\<bar> < w1" "\<bar>x - x'\<bar> < w2"
    | (wide) "\<not> \<bar>x - x'\<bar> < w1" "\<bar>x - x'\<bar> < w2"
    | (none) "\<not> \<bar>x - x'\<bar> < w1" "\<not> \<bar>x - x'\<bar> < w2"
    using assms by linarith
  then show ?case
  proof cases
    case both
    have "fst (cell_step y' c2) \<le> fst (cell_step y' c1) \<and>
          snd (cell_step y' c1) \<le> snd (cell_step y' c2)"
      using cell_step_mono [of "fst c2" "fst c1" "snd c1" "snd c2" y'] Cons.prems by simp
    then show ?thesis
      using both Cons.IH [of "cell_step y' c2" "cell_step y' c1"] by (simp add: p)
  next
    case wide
    have "fst (cell_step y' c2) \<le> fst c1 \<and> snd c1 \<le> snd (cell_step y' c2)"
      using cell_step_widens [of y' c2] Cons.prems by (meson order_trans)
    then show ?thesis
      using wide Cons.IH [of "cell_step y' c2" c1] by (simp add: p)
  next
    case none
    then show ?thesis
      using Cons.IH [of c2 c1] Cons.prems by (simp add: p)
  qed
qed

lemma cell_mono:
  "w1 \<le> w2 \<Longrightarrow> fst (cell w2 ps x) \<le> fst (cell w1 ps x) \<and> snd (cell w1 ps x) \<le> snd (cell w2 ps x)"
  unfolding cell_def by (rule scan_window_mono) simp_all

lemma window_nonpositive: "width \<le> 0 \<Longrightarrow> window width x ps = []"
  by (auto simp: window_def filter_empty_conv)

lemma inner_loop_nonpositive:
  "width \<le> 0 \<Longrightarrow> inner_loop width x index ps st = Inr st"
proof (induction ps)
  case Nil
  then show ?case by simp
next
  case (Cons p ps)
  obtain x' y' lo up where p: "p = (x', y')" "st = (lo, up)" by (cases p, cases st)
  have "\<not> \<bar>x - x'\<bar> < width" using Cons.prems by linarith
  with Cons p show ?case by simp
qed

lemma outer_loop_nonpositive:
  "width \<le> 0 \<Longrightarrow> outer_loop width ps ixs st = Inr st"
  by (induction ixs) (auto simp: inner_loop_nonpositive)

lemma outer_loop_append:
  "outer_loop width ps (as @ bs) st =
     (case outer_loop width ps as st of Inl e \<Rightarrow> Inl e | Inr st' \<Rightarrow> outer_loop width ps bs st')"
proof (induction as arbitrary: st)
  case Nil
  then show ?case by simp
next
  case (Cons a as)
  obtain i x where "a = (i, x)" by (cases a)
  with Cons show ?case by (simp split: sum.splits)
qed

lemma outer_loop_out_of_range:
  "length lo \<le> k \<Longrightarrow>
   outer_loop width ps (enumerate k xs) (lo, up) =
     (if \<exists>x\<in>set xs. window width x ps \<noteq> [] then Inl IndexError else Inr (lo, up))"
proof (induction xs arbitrary: k)
  case Nil
  then show ?case by simp
next
  case (Cons x xs)
  have "length lo \<le> Suc k" using Cons.prems by simp
  from Cons.IH [OF this] Cons.prems show ?case
    by (simp add: inner_loop_out_of_range)
qed

lemma window_nonempty_iff:
  "window width xi (zip x y) \<noteq> [] \<longleftrightarrow>
     (\<exists>j. j < length x \<and> j < length y \<and> \<bar>xi - x ! j\<bar> < width)"
proof -
  have "window width xi (zip x y) \<noteq> [] \<longleftrightarrow> set (window width xi (zip x y)) \<noteq> {}"
    by simp
  also have "\<dots> \<longleftrightarrow> (\<exists>j. j < length x \<and> j < length y \<and> \<bar>xi - x ! j\<bar> < width)"
    unfolding set_window by blast
  finally show ?thesis .
qed

lemma zip_take_shorter: "length y \<le> length x \<Longrightarrow> zip (take (length y) x) y = zip x y"
proof -
  assume "length y \<le> length x"
  then have "take (length y) (zip x y) = zip x y" by simp
  then show ?thesis by (simp add: take_zip)
qed

lemma band_bounds_gt:
  assumes "length y < length x"
  shows "band_bounds x y width =
     (if \<exists>xi\<in>set (drop (length y) x). window width xi (zip x y) \<noteq> [] then Inl IndexError
      else band_bounds (take (length y) x) y width)"
proof -
  let ?m = "length y"
  let ?lo = "map (\<lambda>xi. fst (cell width (zip x y) xi)) (take ?m x)"
  let ?up = "map (\<lambda>xi. snd (cell width (zip x y) xi)) (take ?m x)"
  have len: "length (take ?m x) = ?m" using assms by simp
  have pre: "outer_loop width (zip x y) (enumerate 0 (take ?m x))
               (replicate ?m PosInf, replicate ?m NegInf) = Inr (?lo, ?up)"
    using outer_loop_in_range [of "[]" 0 "[]" "take ?m x" ?m width "zip x y"] len by simp
  have short: "band_bounds (take ?m x) y width = Inr (?lo, ?up)"
    using assms pre by (simp add: band_bounds_def zip_take_shorter)
  have "enumerate 0 x = enumerate 0 (take ?m x) @ enumerate ?m (drop ?m x)"
    using enumerate_append_eq [of 0 "take ?m x" "drop ?m x"] len by simp
  then have "band_bounds x y width =
      outer_loop width (zip x y) (enumerate ?m (drop ?m x)) (?lo, ?up)"
    by (simp add: band_bounds_def outer_loop_append pre)
  also have "\<dots> = (if \<exists>xi\<in>set (drop ?m x). window width xi (zip x y) \<noteq> [] then Inl IndexError
      else Inr (?lo, ?up))"
    by (rule outer_loop_out_of_range) (use len in simp)
  finally show ?thesis by (simp add: short)
qed

lemma zip_take_longer: "length x \<le> length y \<Longrightarrow> zip x (take (length x) y) = zip x y"
proof -
  assume "length x \<le> length y"
  then have "take (length x) (zip x y) = zip x y" by simp
  then show ?thesis by (simp add: take_zip)
qed

section \<open>The claims of the specification\<close>

text \<open>Unfolding the two definitions below lets the simplifier run the loops on literal lists.\<close>

lemmas band_eval = band_bounds_def getitem_def

text \<open>
  C1. On \<open>x = [0, 1, 2, 3]\<close>, \<open>y = [5, 1, 9, 3]\<close>, \<open>width = 1.5\<close> the lower array is
  \<open>[1, 1, 1, 3]\<close> as stated, but the upper array is \<open>[-inf, 9, 9, -inf]\<close> and not
  \<open>[5, 9, 9, 9]\<close>: at indices 0 and 3 every sample of the window is a new minimum
  when it is scanned, so the \<^verbatim>\<open>elif\<close> branch that raises the upper bound is never taken.
\<close>

theorem band_bounds_concrete_case:
  "band_bounds [0, 1, 2, 3] [5, 1, 9, 3] (3 / 2) =
     Inr ([Fin 1, Fin 1, Fin 1, Fin 3], [NegInf, Fin 9, Fin 9, NegInf])"
  by (simp add: band_eval)

text \<open>
  C2. The claim asks for \<open>lower[i] \<le> upper[i]\<close> at every index with a neighbour. On
  \<open>x = [0, 5]\<close>, \<open>y = [2, 3]\<close>, \<open>width = 1\<close> index 0 has itself as neighbour, and the
  code returns \<open>lower[0] = 2\<close> with \<open>upper[0]\<close> still at \<open>-inf\<close>: the only sample of
  the window took the lower-bound branch and the \<^verbatim>\<open>elif\<close> was skipped.
\<close>

theorem lower_above_upper:
  "band_bounds [0, 5] [2, 3] 1 = Inr ([Fin 2, Fin 3], [NegInf, NegInf]) \<and>
   \<bar>[0, 5::real] ! 0 - [0, 5] ! 0\<bar> < 1 \<and> \<not> Fin 2 \<le> NegInf"
  by (simp add: band_eval)

text \<open>
  C3. For series of equal length and an index whose window is not empty, the lower bound
  is the least \<open>y[j]\<close> over the samples \<open>j\<close> (\<open>j = i\<close> included) with
  \<open>|x[i] - x[j]| < width\<close>, the test being strict. A window that is not empty makes the
  width positive and the series non-empty, and the computation returns.
\<close>

theorem lower_is_window_minimum:
  assumes "length x = length y" and "i < length x"
    and "\<exists>j<length x. \<bar>x ! i - x ! j\<bar> < width"
  shows "\<exists>lower_y upper_y. band_bounds x y width = Inr (lower_y, upper_y) \<and>
           lower_y ! i = Fin (Min {y ! j | j. j < length x \<and> \<bar>x ! i - x ! j\<bar> < width})"
proof -
  let ?W = "window width (x ! i) (zip x y)"
  have set_W: "set ?W = {y ! j | j. j < length x \<and> \<bar>x ! i - x ! j\<bar> < width}"
    using assms(1) by (auto simp: set_window)
  from assms(3) have "set ?W \<noteq> {}"
    unfolding set_W by blast
  then have "?W \<noteq> []" by auto
  then have "fst (cell width (zip x y) (x ! i)) = Fin (Min (set ?W))"
    by (simp add: cell_def fst_scan_cell)
  then show ?thesis
    using assms(1,2) by (simp add: band_bounds_le set_W)
qed

theorem lower_is_window_minimum_witness:
  "\<exists>lower_y upper_y. band_bounds [0, 1, 2, 3] [5, 1, 9, 3] (3 / 2) = Inr (lower_y, upper_y) \<and>
     lower_y ! 0 = Fin (Min {[5, 1, 9, 3::real] ! j | j. j < length [0, 1, 2, 3::real] \<and> \<bar>[0, 1, 2, 3::real] ! 0 - [0, 1, 2, 3] ! j\<bar> < 3 / 2})"
proof -
  have "\<exists>j<length [0, 1, 2, 3::real]. \<bar>[0, 1, 2, 3::real] ! 0 - [0, 1, 2, 3] ! j\<bar> < 3 / 2"
    by (intro exI [of _ 0]) simp
  then show ?thesis
    using lower_is_window_minimum [of "[0, 1, 2, 3]" "[5, 1, 9, 3]" 0 "3 / 2"] by simp
qed

text \<open>
  C4, as stated, fails: the code checks neither the lengths nor the sign of the width.
  With \<open>x\<close> of length 3 and \<open>y\<close> of length 4 it returns two arrays of length 4, and
  with \<open>width = -1\<close> it returns the two sentinel arrays.
\<close>

theorem no_input_validation_counterexample:
  "band_bounds [0, 1, 2] [5, 1, 9, 3] 1 =
     Inr ([Fin 5, Fin 1, Fin 9, PosInf], [NegInf, NegInf, NegInf, NegInf]) \<and>
   band_bounds [0] [5] (- 1) = Inr ([PosInf], [NegInf])"
  by (simp add: band_eval)

text \<open>
  C4, amended. Whenever \<open>width < 0\<close> the computation returns without error and every
  cell keeps its sentinel, whatever the lengths; whenever \<open>x\<close> is shorter than \<open>y\<close> it
  returns without error, both arrays having the length of \<open>y\<close>. The only error the
  computation can raise is the IndexError of an array access.
\<close>

theorem no_input_validation:
  "(width < 0 \<longrightarrow>
      band_bounds x y width = Inr (replicate (length y) PosInf, replicate (length y) NegInf)) \<and>
   (length x < length y \<longrightarrow>
      (\<exists>lower_y upper_y. band_bounds x y width = Inr (lower_y, upper_y) \<and>
         length lower_y = length y \<and> length upper_y = length y))"
  by (simp add: band_bounds_le) (simp add: band_bounds_def outer_loop_nonpositive)

theorem no_input_validation_witness:
  "band_bounds [0] [5] (- 1) = Inr (replicate (length [5::real]) PosInf, replicate (length [5::real]) NegInf) \<and>
   (\<exists>lower_y upper_y. band_bounds [0, 1, 2] [5, 1, 9, 3] 1 = Inr (lower_y, upper_y) \<and>
      length lower_y = length [5, 1, 9, 3::real] \<and> length upper_y = length [5, 1, 9, 3::real])"
  using no_input_validation [of "- 1" "[0]" "[5]"]
    no_input_validation [of 1 "[0, 1, 2]" "[5, 1, 9, 3]"]
  by simp

text \<open>
  C5. For one sample and \<open>width > 0\<close> the claim asks for \<open>lower[0] = upper[0] = y[0]\<close>.
  On \<open>x = [0]\<close>, \<open>y = [7]\<close>, \<open>width = 1\<close> the code returns \<open>lower[0] = 7\<close> and leaves
  \<open>upper[0]\<close> at \<open>-inf\<close>, the sample having taken the lower-bound branch.
\<close>

theorem single_sample_upper_stays_sentinel:
  "band_bounds [0] [7] 1 = Inr ([Fin 7], [NegInf])"
  by (simp add: band_eval)

text \<open>
  C6. The claim asks that permuting the series permutes the result. On \<open>x = [0, 1]\<close>,
  \<open>y = [5, 1]\<close>, \<open>width = 1.5\<close> both samples are in both windows; scanning 5 then 1
  never reaches the \<^verbatim>\<open>elif\<close>, scanning 1 then 5 does, so the swapped series gets the
  upper array \<open>[5, 5]\<close> while the original one gets \<open>[-inf, -inf]\<close>.
\<close>

theorem permuted_series_differ:
  "band_bounds [0, 1] [5, 1] (3 / 2) = Inr ([Fin 1, Fin 1], [NegInf, NegInf]) \<and>
   band_bounds [1, 0] [1, 5] (3 / 2) = Inr ([Fin 1, Fin 1], [Fin 5, Fin 5])"
  by (simp add: band_eval)

text \<open>
  C7. For series of equal length and \<open>0 \<le> width1 < width2\<close>, both computations return
  and at every index the lower bound for \<open>width2\<close> is at most the one for \<open>width1\<close>, the
  upper bound for \<open>width2\<close> at least the one for \<open>width1\<close>. This holds for the
  \<^verbatim>\<open>if\<close>/\<^verbatim>\<open>elif\<close> as written: a sample that reaches the \<^verbatim>\<open>elif\<close> in the narrow
  scan reaches it in the wide one, where the lower bound is no larger at that moment.
\<close>

theorem band_widens_with_width:
  assumes "length x = length y" and "0 \<le> width1" and "width1 < width2"
  shows "\<exists>lower1 upper1 lower2 upper2.
           band_bounds x y width1 = Inr (lower1, upper1) \<and>
           band_bounds x y width2 = Inr (lower2, upper2) \<and>
           (\<forall>i<length x. lower2 ! i \<le> lower1 ! i \<and> upper1 ! i \<le> upper2 ! i)"
  using assms cell_mono [of width1 width2 "zip x y"]
  by (simp add: band_bounds_le)

theorem band_widens_with_width_witness:
  "\<exists>lower1 upper1 lower2 upper2.
     band_bounds [0, 1, 2, 3] [5, 1, 9, 3] 1 = Inr (lower1, upper1) \<and>
     band_bounds [0, 1, 2, 3] [5, 1, 9, 3] (3 / 2) = Inr (lower2, upper2) \<and>
     (\<forall>i<length [0, 1, 2, 3::real]. lower2 ! i \<le> lower1 ! i \<and> upper1 ! i \<le> upper2 ! i)"
  using band_widens_with_width [of "[0, 1, 2, 3]" "[5, 1, 9, 3]" 1 "3 / 2"] by simp

text \<open>
  C8. With \<open>width = 0\<close> no pair of samples passes the strict test, a sample and itself
  included, and the computation returns with every cell of both arrays at its sentinel.
  It returns so whatever the lengths of the two series.
\<close>

theorem zero_width_no_neighbours:
  "(\<forall>i j. \<not> \<bar>x ! i - x ! j\<bar> < (0::real)) \<and>
   band_bounds x y 0 = Inr (replicate (length y) PosInf, replicate (length y) NegInf)"
  by (simp add: band_bounds_def outer_loop_nonpositive)




text \<open>
  C10, as stated, fails when \<open>x\<close> is the longer series: on \<open>x = [0, 0]\<close>, \<open>y = [1]\<close>,
  \<open>width = 1\<close> the outer loop reaches index 1, the pair \<open>(0, 1)\<close> passes the test, and
  reading \<open>lower_y[1]\<close> of an array of length 1 raises IndexError.
\<close>

theorem longer_x_raises_counterexample:
  "band_bounds [0, 0] [1] 1 = Inl IndexError"
  by (simp add: band_eval)

text \<open>
  C10, amended. When \<open>x\<close> is shorter than \<open>y\<close> the computation returns without error:
  the first \<open>len(x)\<close> cells are those computed from \<open>x\<close> and the first \<open>len(x)\<close>
  samples of \<open>y\<close>, and the remaining cells keep their sentinels. When \<open>x\<close> is longer
  than \<open>y\<close> it raises IndexError if some index \<open>i \<ge> len(y)\<close> has a sample
  \<open>j < len(y)\<close> with \<open>|x[i] - x[j]| < width\<close>, and otherwise returns the arrays computed
  from the first \<open>len(y)\<close> samples of \<open>x\<close> and \<open>y\<close>.
\<close>

theorem length_mismatch:
  "(length x < length y \<longrightarrow>
      (\<exists>lower_y upper_y.
         band_bounds x (take (length x) y) width = Inr (lower_y, upper_y) \<and>
         band_bounds x y width =
           Inr (lower_y @ replicate (length y - length x) PosInf,
                upper_y @ replicate (length y - length x) NegInf))) \<and>
   (length y < length x \<longrightarrow>
      (\<exists>lower_y upper_y.
         band_bounds (take (length y) x) y width = Inr (lower_y, upper_y) \<and>
         band_bounds x y width =
           (if \<exists>i<length x. length y \<le> i \<and> (\<exists>j<length y. \<bar>x ! i - x ! j\<bar> < width)
            then Inl IndexError else Inr (lower_y, upper_y))))"
proof (intro conjI impI)
  assume "length x < length y"
  then show "\<exists>lower_y upper_y.
         band_bounds x (take (length x) y) width = Inr (lower_y, upper_y) \<and>
         band_bounds x y width =
           Inr (lower_y @ replicate (length y - length x) PosInf,
                upper_y @ replicate (length y - length x) NegInf)"
    by (simp add: band_bounds_le zip_take_longer)
next
  assume lt: "length y < length x"
  have "(\<exists>xi\<in>set (drop (length y) x). window width xi (zip x y) \<noteq> []) \<longleftrightarrow>
        (\<exists>i<length x. length y \<le> i \<and> (\<exists>j<length y. \<bar>x ! i - x ! j\<bar> < width))"
    (is "?L \<longleftrightarrow> ?R")
  proof
    assume ?L
    then obtain xi where xi: "xi \<in> set (drop (length y) x)" "window width xi (zip x y) \<noteq> []"
      by blast
    from xi(1) obtain k where k: "k < length x - length y" "xi = x ! (length y + k)"
      by (auto simp: in_set_conv_nth)
    from xi(2) obtain j where "j < length y" "\<bar>xi - x ! j\<bar> < width"
      by (auto simp: window_nonempty_iff)
    with k show ?R
      by (intro exI [of _ "length y + k"]) auto
  next
    assume ?R
    then obtain i j where ij: "i < length x" "length y \<le> i" "j < length y" "\<bar>x ! i - x ! j\<bar> < width"
      by blast
    then have "x ! i \<in> set (drop (length y) x)"
      by (auto simp: in_set_conv_nth intro!: exI [of _ "i - length y"])
    moreover have "window width (x ! i) (zip x y) \<noteq> []"
      unfolding window_nonempty_iff using ij lt by (intro exI [of _ j]) simp
    ultimately show ?L by blast
  qed
  moreover have "\<exists>lower_y upper_y. band_bounds (take (length y) x) y width = Inr (lower_y, upper_y)"
    using lt by (simp add: band_bounds_le)
  ultimately show "\<exists>lower_y upper_y.
         band_bounds (take (length y) x) y width = Inr (lower_y, upper_y) \<and>
         band_bounds x y width =
           (if \<exists>i<length x. length y \<le> i \<and> (\<exists>j<length y. \<bar>x ! i - x ! j\<bar> < width)
            then Inl IndexError else Inr (lower_y, upper_y))"
    using lt by (auto simp: band_bounds_gt)
qed

theorem length_mismatch_witness:
  "length [0::real] < length [5, 1::real] \<and>
   band_bounds [0] [5, 1] 1 = Inr ([Fin 5] @ replicate 1 PosInf, [NegInf] @ replicate 1 NegInf) \<and>
   length [1::real] < length [0, 0::real] \<and>
   band_bounds [0, 0] [1] 1 = Inl IndexError"
proof -
  have short: "band_bounds [0] [5] 1 = Inr ([Fin 5], [NegInf])"
    by (simp add: band_eval)
  have over: "\<exists>i<length [0, 0::real]. length [1::real] \<le> i \<and>
                (\<exists>j<length [1::real]. \<bar>[0, 0::real] ! i - [0, 0] ! j\<bar> < 1)"
    by (intro exI [of _ 1]) simp
  show ?thesis
    using length_mismatch [of "[0]" "[5, 1]" 1] length_mismatch [of "[0, 0]" "[1]" 1] short over
    by auto
qed

end
